theory Spec2Isabelle
  imports Main
begin

section \<open>Python strings and text files\<close>

text \<open>
  A Python \<open>str\<close> is the list of its Unicode code points. Literals of the source are
  written as the code points of their characters.
\<close>

type_synonym pystr = "nat list"

definition LF :: nat where "LF = 10"
definition CR :: nat where "CR = 13"

text \<open>\<open>str.isspace\<close> for one code point: the characters \<open>str.strip()\<close> removes.\<close>

definition isspace :: "nat \<Rightarrow> bool" where
  "isspace c = (c \<in> {9, 10, 11, 12, 13, 28, 29, 30, 31, 32, 133, 160, 5760,
                      8192, 8193, 8194, 8195, 8196, 8197, 8198, 8199, 8200, 8201, 8202,
                      8232, 8233, 8239, 8287, 12288})"

definition strip :: "pystr \<Rightarrow> pystr" where
  "strip s = rev (dropWhile isspace (rev (dropWhile isspace s)))"

text \<open>
  Reading a file opened in text mode with the default \<open>newline=None\<close>: the sequences
  \<open>\r\n\<close> and \<open>\r\<close> arrive as \<open>\n\<close>. The flag tells whether the previous
  character was a carriage return, as the incremental decoder remembers it.
\<close>

fun universal_newlines :: "bool \<Rightarrow> pystr \<Rightarrow> pystr" where
  "universal_newlines pendingcr [] = []"
| "universal_newlines pendingcr (c # cs) =
     (if c = CR then LF # universal_newlines True cs
      else if c = LF \<and> pendingcr then universal_newlines False cs
      else c # universal_newlines False cs)"

text \<open>
  Iterating over the file (\<open>for line in f\<close>): each line with its terminating \<open>\n\<close>, the
  last one possibly without. \<open>cur\<close> is the part of the current line read so far.
\<close>

fun file_lines :: "pystr \<Rightarrow> pystr \<Rightarrow> pystr list" where
  "file_lines cur [] = (if cur = [] then [] else [cur])"
| "file_lines cur (c # cs) =
     (if c = LF then (cur @ [c]) # file_lines [] cs else file_lines (cur @ [c]) cs)"

text \<open>The comprehension \<open>[line.strip() for line in f if line.strip()]\<close>.\<close>

definition stripped_lines :: "pystr list \<Rightarrow> pystr list" where
  "stripped_lines ls = map strip (filter (\<lambda>line. strip line \<noteq> []) ls)"

section \<open>The process and its surroundings\<close>

datatype level = INFO | ERROR

text \<open>
  Every exception of the model is a subclass of Python's \<open>Exception\<close>, so every
  \<open>except Exception\<close> of the source catches each of them; \<open>HTTPException\<close> carries its
  status code.
\<close>

datatype exn = OSError | UnboundLocalError | HTTPException nat

text \<open>
  The state the source reads and writes: the file \<open>users.txt\<close> (\<open>None\<close> while it does
  not exist, otherwise its text), the records given to \<open>logger\<close> (level and the fixed
  part of the message), and the calls made to the platform's push and reply endpoints
  with their outcome.
\<close>

record world =
  users_file :: "pystr option"
  log :: "(level \<times> string) list"
  pushes :: "(pystr \<times> pystr \<times> bool) list"
  replies :: "(pystr \<times> pystr \<times> bool) list"

text \<open>
  What the storage layer does during one call: whether \<open>Path.exists\<close> raises (it does
  on errors other than a missing path, a permission error for one), and whether creating
  the file, opening and reading it (a file that is not valid UTF-8 included), or opening
  and writing it (a text that UTF-8 cannot encode included) raises. A failing creation,
  read or append transfers nothing. A failing rewrite by \<open>open(USERS_FILE, "w")\<close>
  leaves what \<open>write_cut\<close> says: with \<open>None\<close> the call to \<open>open\<close> raised and the file
  is untouched; with \<open>Some n\<close> the file was truncated by \<open>open\<close> and the first \<open>n\<close>
  characters of the text were stored before the call raised.
\<close>

record faults =
  exists_fails :: bool
  touch_fails :: bool
  read_fails :: bool
  write_fails :: bool
  write_cut :: "nat option"

definition logger :: "level \<Rightarrow> string \<Rightarrow> world \<Rightarrow> world" where
  "logger lv msg w = w\<lparr>log := log w @ [(lv, msg)]\<rparr>"

text \<open>\<open>Path(USERS_FILE).exists()\<close> and \<open>Path(USERS_FILE).touch()\<close>.\<close>

definition path_exists :: "faults \<Rightarrow> world \<Rightarrow> exn + bool" where
  "path_exists flt w = (if exists_fails flt then Inl OSError else Inr (users_file w \<noteq> None))"

definition path_touch :: "faults \<Rightarrow> world \<Rightarrow> exn + world" where
  "path_touch flt w =
     (if touch_fails flt then Inl OSError
      else Inr (w\<lparr>users_file := Some (case users_file w of None \<Rightarrow> [] | Some c \<Rightarrow> c)\<rparr>))"

text \<open>\<open>open(USERS_FILE, "r")\<close> followed by the iteration over all lines.\<close>

definition open_read :: "faults \<Rightarrow> world \<Rightarrow> exn + pystr list" where
  "open_read flt w =
     (case users_file w of
        None \<Rightarrow> Inl OSError
      | Some c \<Rightarrow> if read_fails flt then Inl OSError
                  else Inr (file_lines [] (universal_newlines False c)))"

text \<open>
  \<open>open(USERS_FILE, "a")\<close> and \<open>open(USERS_FILE, "w")\<close> with the text written,
  which a POSIX system stores as it is (\<open>os.linesep\<close> is \<open>\n\<close>).
\<close>

definition open_append :: "faults \<Rightarrow> pystr \<Rightarrow> world \<Rightarrow> exn + world" where
  "open_append flt txt w =
     (if write_fails flt then Inl OSError
      else Inr (w\<lparr>users_file := Some ((case users_file w of None \<Rightarrow> [] | Some c \<Rightarrow> c) @ txt)\<rparr>))"

definition open_write :: "faults \<Rightarrow> pystr \<Rightarrow> world \<Rightarrow> (exn + unit) \<times> world" where
  "open_write flt txt w =
     (if write_fails flt then
        (Inl OSError,
         case write_cut flt of
           None \<Rightarrow> w
         | Some n \<Rightarrow> w\<lparr>users_file := Some (take n txt)\<rparr>)
      else (Inr (), w\<lparr>users_file := Some txt\<rparr>))"

section \<open>The subscriber store\<close>

definition ensure_users_file_exists :: "faults \<Rightarrow> world \<Rightarrow> (exn + unit) \<times> world" where
  "ensure_users_file_exists flt w =
     (case path_exists flt w of
        Inl e \<Rightarrow> (Inl e, w)
      | Inr present \<Rightarrow>
          if \<not> present then
            (case path_touch flt w of
               Inr w' \<Rightarrow> (Inr (), logger INFO ''Created users.txt'' w')
             | Inl e \<Rightarrow> (Inr (), logger ERROR ''Error creating users.txt'' w))
          else (Inr (), w))"

definition read_user_ids :: "faults \<Rightarrow> world \<Rightarrow> (exn + pystr list) \<times> world" where
  "read_user_ids flt w =
     (case ensure_users_file_exists flt w of
        (Inl e, w1) \<Rightarrow> (Inl e, w1)
      | (Inr u, w1) \<Rightarrow>
          (case open_read flt w1 of
             Inr ls \<Rightarrow> (Inr (stripped_lines ls), w1)
           | Inl e \<Rightarrow> (Inr [], logger ERROR ''Error reading users'' w1)))"

definition save_user_id :: "faults \<Rightarrow> pystr \<Rightarrow> world \<Rightarrow> (exn + bool) \<times> world" where
  "save_user_id flt user_id w =
     (case read_user_ids flt w of
        (Inl e, w1) \<Rightarrow> (Inr False, logger ERROR ''Error saving user_id'' w1)
      | (Inr existing_users, w1) \<Rightarrow>
          if user_id \<notin> set existing_users then
            (case open_append flt (user_id @ [LF]) w1 of
               Inr w2 \<Rightarrow> (Inr True, logger INFO ''Saved new user_id'' w2)
             | Inl e \<Rightarrow> (Inr False, logger ERROR ''Error saving user_id'' w1))
          else (Inr False, logger INFO ''User_id already exists'' w1))"

definition remove_user_id :: "faults \<Rightarrow> pystr \<Rightarrow> world \<Rightarrow> (exn + bool) \<times> world" where
  "remove_user_id flt user_id w =
     (case read_user_ids flt w of
        (Inl e, w1) \<Rightarrow> (Inr False, logger ERROR ''Error removing user_id'' w1)
      | (Inr users, w1) \<Rightarrow>
          if user_id \<in> set users then
            (case open_write flt (concat (map (\<lambda>user. user @ [LF]) (remove1 user_id users))) w1 of
               (Inr u, w2) \<Rightarrow> (Inr True, logger INFO ''Removed user_id'' w2)
             | (Inl e, w2) \<Rightarrow> (Inr False, logger ERROR ''Error removing user_id'' w2))
          else (Inr False, logger INFO ''User_id not found'' w1))"

section \<open>The dispatch engine\<close>

text \<open>
  The platform decides the outcome of each send; its answer may depend on the calls made
  so far, on the recipient (or reply token) and on the text. A send that raises inside
  \<open>send_push_message\<close> or \<open>send_reply_message\<close> is caught there and reported as
  \<open>False\<close>.
\<close>

type_synonym transport = "(pystr \<times> pystr \<times> bool) list \<Rightarrow> pystr \<Rightarrow> pystr \<Rightarrow> bool"

definition send_reply_message :: "transport \<Rightarrow> pystr \<Rightarrow> pystr \<Rightarrow> world \<Rightarrow> (exn + bool) \<times> world" where
  "send_reply_message tr reply_token text w =
     (if tr (replies w) reply_token text
      then (Inr True, w\<lparr>replies := replies w @ [(reply_token, text, True)]\<rparr>)
      else (Inr False, logger ERROR ''Error sending reply message''
                         (w\<lparr>replies := replies w @ [(reply_token, text, False)]\<rparr>)))"

definition send_push_message :: "transport \<Rightarrow> pystr \<Rightarrow> pystr \<Rightarrow> world \<Rightarrow> (exn + bool) \<times> world" where
  "send_push_message tr user_id text w =
     (if tr (pushes w) user_id text
      then (Inr True, w\<lparr>pushes := pushes w @ [(user_id, text, True)]\<rparr>)
      else (Inr False, logger ERROR ''Error sending push message''
                         (w\<lparr>pushes := pushes w @ [(user_id, text, False)]\<rparr>)))"

text \<open>The values of the dictionaries that \<open>broadcast_message\<close> returns.\<close>

datatype jvalue = JStr string | JInt int | JList "pystr list"

text \<open>
  The \<open>for user_id in user_ids\<close> loop of \<open>broadcast_message\<close>, carrying
  \<open>success_count\<close> and \<open>failed_users\<close>.
\<close>

fun broadcast_loop ::
  "transport \<Rightarrow> pystr \<Rightarrow> pystr list \<Rightarrow> int \<Rightarrow> pystr list \<Rightarrow> world
     \<Rightarrow> (exn + int \<times> pystr list) \<times> world" where
  "broadcast_loop tr text [] success_count failed_users w =
     (Inr (success_count, failed_users), w)"
| "broadcast_loop tr text (user_id # user_ids) success_count failed_users w =
     (case send_push_message tr user_id text w of
        (Inl e, w') \<Rightarrow> (Inl e, w')
      | (Inr sent, w') \<Rightarrow>
          if sent then broadcast_loop tr text user_ids (success_count + 1) failed_users w'
          else broadcast_loop tr text user_ids success_count (failed_users @ [user_id]) w')"

text \<open>
  The body of the \<open>try\<close> block of \<open>broadcast_message\<close>. The request is the decoded
  JSON object, of which only the key \<open>text\<close> is read, with the default \<open>""\<close>.
\<close>

definition broadcast_try ::
  "faults \<Rightarrow> transport \<Rightarrow> (string \<rightharpoonup> pystr) \<Rightarrow> world
     \<Rightarrow> (exn + (string \<times> jvalue) list) \<times> world" where
  "broadcast_try flt tr request w =
     (let text = (case request ''text'' of None \<Rightarrow> [] | Some t \<Rightarrow> t) in
      if text = [] then (Inl (HTTPException 400), w)
      else
        (case read_user_ids flt w of
           (Inl e, w1) \<Rightarrow> (Inl e, w1)
         | (Inr user_ids, w1) \<Rightarrow>
             if user_ids = [] then
               (Inr [(''message'', JStr ''No users to send message to''),
                     (''total_users'', JInt 0)], w1)
             else
               (case broadcast_loop tr text user_ids 0 [] w1 of
                  (Inl e, w2) \<Rightarrow> (Inl e, w2)
                | (Inr (success_count, failed_users), w2) \<Rightarrow>
                    (Inr [(''message'', JStr ''Broadcast completed''),
                          (''total_users'', JInt (int (length user_ids))),
                          (''success_count'', JInt success_count),
                          (''failed_count'', JInt (int (length failed_users))),
                          (''failed_users'', JList failed_users)], w2))))"

text \<open>
  \<open>broadcast_message\<close> with its handler \<open>except Exception as e\<close>, which logs and raises
  \<open>HTTPException(status_code=500)\<close> for whatever the body raised.
\<close>

definition broadcast_message ::
  "faults \<Rightarrow> transport \<Rightarrow> (string \<rightharpoonup> pystr) \<Rightarrow> world
     \<Rightarrow> (exn + (string \<times> jvalue) list) \<times> world" where
  "broadcast_message flt tr request w =
     (case broadcast_try flt tr request w of
        (Inl e, w') \<Rightarrow> (Inl (HTTPException 500), logger ERROR ''Error in broadcast'' w')
      | (Inr result, w') \<Rightarrow> (Inr result, w'))"

section \<open>The event router\<close>

record event =
  source_user_id :: pystr
  reply_token :: pystr
  message_text :: pystr

text \<open>The operator \<open>needle in haystack\<close> on strings.\<close>

fun is_substring :: "pystr \<Rightarrow> pystr \<Rightarrow> bool" where
  "is_substring needle [] = (needle = [])"
| "is_substring needle (c # cs) =
     (take (length needle) (c # cs) = needle \<or> is_substring needle cs)"

text \<open>The phrases and replies of \<open>handle_message\<close>, as code points.\<close>

definition greetings :: "pystr list" where
  "greetings = [[3626, 3623, 3633, 3626, 3604, 3637], [104, 101, 108, 108, 111], [104, 105],
                [3627, 3623, 3633, 3604, 3604, 3637]]"

definition thanks :: "pystr list" where
  "thanks = [[3586, 3629, 3610, 3588, 3640, 3603], [116, 104, 97, 110, 107, 32, 121, 111, 117],
             [116, 104, 97, 110, 107, 115]]"

definition user_id_phrase :: pystr where
  "user_id_phrase = [117, 115, 101, 114, 32, 105, 100]"

definition greeting_reply :: "pystr \<Rightarrow> pystr" where
  "greeting_reply user_id =
     [3626, 3623, 3633, 3626, 3604, 3637, 3588, 3619, 3633, 3610, 33, 32, 128522, 10,
      85, 115, 101, 114, 32, 73, 68, 58, 32] @ user_id"

definition thanks_reply :: pystr where
  "thanks_reply =
     [3618, 3636, 3609, 3604, 3637, 3588, 3619, 3633, 3610, 33, 32, 3617, 3637, 3629, 3632,
      3652, 3619, 3651, 3627, 3657, 3594, 3656, 3623, 3618, 3629, 3637, 3585, 3652, 3627,
      3617, 3588, 3619, 3633, 3610, 63, 32, 128591]"

definition user_id_reply :: "pystr \<Rightarrow> pystr" where
  "user_id_reply user_id =
     [85, 115, 101, 114, 32, 73, 68, 32, 3586, 3629, 3591, 3588, 3640, 3603, 3588, 3639,
      3629, 58, 32] @ user_id"

text \<open>
  The \<open>if\<close>/\<open>elif\<close> chain of \<open>handle_message\<close>: the binding of the local variable
  \<open>reply_text\<close> after it, \<open>None\<close> while the name is unbound. \<open>str.lower\<close> is a parameter.
\<close>

definition reply_text_binding :: "(pystr \<Rightarrow> pystr) \<Rightarrow> pystr \<Rightarrow> pystr \<Rightarrow> pystr option" where
  "reply_text_binding lower user_id text =
     (if lower text \<in> set greetings then Some (greeting_reply user_id)
      else if lower text \<in> set thanks then Some thanks_reply
      else if is_substring user_id_phrase (lower text) then Some (user_id_reply user_id)
      else None)"

text \<open>Reading an unbound local variable raises \<open>UnboundLocalError\<close>.\<close>

definition handle_message ::
  "(pystr \<Rightarrow> pystr) \<Rightarrow> faults \<Rightarrow> transport \<Rightarrow> event \<Rightarrow> world \<Rightarrow> (exn + unit) \<times> world" where
  "handle_message lower flt tr ev w =
     (let user_id = source_user_id ev;
          text = strip (message_text ev);
          w0 = logger INFO ''Message from'' w
      in case save_user_id flt user_id w0 of
           (Inl e, w1) \<Rightarrow> (Inl e, w1)
         | (Inr saved, w1) \<Rightarrow>
             (case reply_text_binding lower user_id text of
                None \<Rightarrow> (Inl UnboundLocalError, w1)
              | Some reply_text \<Rightarrow>
                  (case send_reply_message tr (reply_token ev) reply_text w1 of
                     (Inl e, w2) \<Rightarrow> (Inl e, w2)
                   | (Inr sent, w2) \<Rightarrow> (Inr (), w2))))"

section \<open>Sequences of store operations\<close>

datatype store_op = Add pystr | Remove pystr

fun apply_op :: "faults \<times> store_op \<Rightarrow> world \<Rightarrow> (exn + bool) \<times> world" where
  "apply_op (flt, Add x) w = save_user_id flt x w"
| "apply_op (flt, Remove x) w = remove_user_id flt x w"

fun run_ops :: "(faults \<times> store_op) list \<Rightarrow> world \<Rightarrow> world" where
  "run_ops [] w = w"
| "run_ops (c # cs) w = run_ops cs (snd (apply_op c w))"

fun run_results :: "(faults \<times> store_op) list \<Rightarrow> world \<Rightarrow> (exn + bool) list" where
  "run_results [] w = []"
| "run_results (c # cs) w = fst (apply_op c w) # run_results cs (snd (apply_op c w))"

text \<open>A call during which the storage layer raises nowhere, and a world before any call.\<close>

definition no_faults :: faults where
  "no_faults = \<lparr>exists_fails = False, touch_fails = False, read_fails = False,
                 write_fails = False, write_cut = None\<rparr>"

definition fresh :: world where
  "fresh = \<lparr>users_file = None, log = [], pushes = [], replies = []\<rparr>"

text \<open>
  An identifier that \<open>strip\<close> leaves as it is and that holds no line break, and a file
  text that is empty or ends with a line feed.
\<close>

definition plain :: "pystr \<Rightarrow> bool" where
  "plain x = (strip x = x \<and> LF \<notin> set x \<and> CR \<notin> set x)"

definition file_ok :: "pystr \<Rightarrow> bool" where
  "file_ok c = (c = [] \<or> last c = LF)"


text \<open>The list that a file text denotes, and the text that \<open>remove_user_id\<close> writes.\<close>

definition users_of_text :: "pystr \<Rightarrow> pystr list" where
  "users_of_text c = stripped_lines (file_lines [] (universal_newlines False c))"

definition store :: "world \<Rightarrow> pystr list" where
  "store w = (case users_file w of None \<Rightarrow> [] | Some c \<Rightarrow> users_of_text c)"

definition render :: "pystr list \<Rightarrow> pystr" where
  "render us = concat (map (\<lambda>user. user @ [LF]) us)"

text \<open>The decoder's flag after the text \<open>a\<close>, when it was \<open>p\<close> before.\<close>

definition pending :: "bool \<Rightarrow> pystr \<Rightarrow> bool" where
  "pending p a = (if a = [] then p else last a = CR)"

text \<open>
  The file after an \<open>ensure_users_file_exists\<close> that did not raise, the list a call
  reads when it reads one, and the text of the file with an absent file read as empty.
\<close>

definition after_ensure :: "faults \<Rightarrow> world \<Rightarrow> pystr option" where
  "after_ensure flt w =
     (case users_file w of None \<Rightarrow> if touch_fails flt then None else Some [] | Some c \<Rightarrow> Some c)"

definition listed :: "faults \<Rightarrow> world \<Rightarrow> pystr list" where
  "listed flt w = (if read_fails flt then [] else store w)"

definition content :: "world \<Rightarrow> pystr" where
  "content w = (case users_file w of None \<Rightarrow> [] | Some c \<Rightarrow> c)"

text \<open>The endpoint \<open>get_user_count\<close>: \<open>count()\<close> of the store.\<close>

definition get_user_count :: "faults \<Rightarrow> world \<Rightarrow> (exn + (string \<times> jvalue) list) \<times> world" where
  "get_user_count flt w =
     (case read_user_ids flt w of
        (Inl e, w1) \<Rightarrow> (Inl e, w1)
      | (Inr users, w1) \<Rightarrow> (Inr [(''total_users'', JInt (int (length users)))], w1))"




definition add_written :: "pystr \<Rightarrow> faults \<times> store_op \<Rightarrow> bool" where
  "add_written x c = (snd c = Add x \<and> \<not> exists_fails (fst c) \<and> \<not> write_fails (fst c))"

text \<open>
  The outcome recorded for a push, two transports (one that delivers everything, one that
  fails for a single recipient), and \<open>str.lower\<close> on ASCII letters; the last three serve
  to run the model on concrete inputs.
\<close>

definition delivered :: "pystr \<times> pystr \<times> bool \<Rightarrow> bool" where
  "delivered call = snd (snd call)"

definition always_delivers :: transport where
  "always_delivers hist to msg = True"

definition fails_for :: "pystr \<Rightarrow> transport" where
  "fails_for u hist to msg = (to \<noteq> u)"

definition ascii_lower :: "pystr \<Rightarrow> pystr" where
  "ascii_lower s = map (\<lambda>c. if 65 \<le> c \<and> c \<le> 90 then c + 32 else c) s"

section \<open>Facts about strings and lines\<close>

lemma isspace_LF [simp]: "isspace LF" and isspace_CR [simp]: "isspace CR"
  by (simp_all add: isspace_def LF_def CR_def)

lemma LF_neq_CR [simp]: "LF \<noteq> CR" "CR \<noteq> LF"
  by (simp_all add: LF_def CR_def)

subsection \<open>strip\<close>

lemma strip_Nil [simp]: "strip [] = []"
  by (simp add: strip_def)

lemma strip_all_space: "\<forall>c\<in>set s. isspace c \<Longrightarrow> strip s = []"
proof -
  assume "\<forall>c\<in>set s. isspace c"
  then have d: "dropWhile isspace s = []" by (induction s) auto
  show ?thesis unfolding strip_def d by simp
qed

lemma strip_append_space:
  assumes "\<forall>c\<in>set ws. isspace c"
  shows "strip (s @ ws) = strip s"
proof (cases "\<forall>c\<in>set s. isspace c")
  case True
  then have "\<forall>c\<in>set (s @ ws). isspace c" using assms by auto
  then have "strip (s @ ws) = []" by (rule strip_all_space)
  then show ?thesis using True by (simp add: strip_all_space)
next
  case False
  then obtain c where c: "c \<in> set s" "\<not> isspace c" by blast
  have d: "dropWhile isspace (s @ ws) = dropWhile isspace s @ ws"
    using c by (rule dropWhile_append1)
  have "dropWhile isspace (rev ws @ rev (dropWhile isspace s))
          = dropWhile isspace (rev (dropWhile isspace s))"
    using assms by (intro dropWhile_append2) simp
  then show ?thesis by (simp add: strip_def d)
qed

lemma set_strip: "set (strip s) \<subseteq> set s"
  by (auto simp: strip_def dest!: set_dropWhileD)

lemma strip_hd: "strip s \<noteq> [] \<Longrightarrow> \<not> isspace (hd (strip s))"
proof -
  assume ne: "strip s \<noteq> []"
  let ?d = "dropWhile isspace s"
  let ?e = "dropWhile isspace (rev ?d)"
  have e: "?e \<noteq> []" using ne by (simp add: strip_def)
  have d: "?d \<noteq> []" using e by (cases "?d") simp_all
  have "\<not> isspace (hd ?d)" using d by (rule hd_dropWhile)
  obtain n where "?e = drop n (rev ?d)" by (metis append_eq_conv_conj takeWhile_dropWhile_id)
  then have "rev ?e = take (length ?d - n) ?d" by (simp add: rev_drop)
  moreover have "rev ?e \<noteq> []" using e by simp
  ultimately have "hd (rev ?e) = hd ?d" by (metis hd_take take_eq_Nil2 zero_less_iff_neq_zero take_Nil take_0)
  then show ?thesis using \<open>\<not> isspace (hd ?d)\<close> by (simp add: strip_def)
qed

lemma strip_last: "strip s \<noteq> [] \<Longrightarrow> \<not> isspace (last (strip s))"
proof -
  assume ne: "strip s \<noteq> []"
  let ?e = "dropWhile isspace (rev (dropWhile isspace s))"
  have e: "?e \<noteq> []" using ne by (simp add: strip_def)
  then have "\<not> isspace (hd ?e)" by (rule hd_dropWhile)
  then show ?thesis using e by (simp add: strip_def last_rev)
qed

lemma strip_fixed:
  assumes "s \<noteq> []" "\<not> isspace (hd s)" "\<not> isspace (last s)"
  shows "strip s = s"
proof -
  have 1: "dropWhile isspace s = s" using assms by (cases s) auto
  have "rev s \<noteq> []" "\<not> isspace (hd (rev s))" using assms by (simp_all add: hd_rev)
  then have 2: "dropWhile isspace (rev s) = rev s" by (cases "rev s") auto
  show ?thesis by (simp add: strip_def 1 2)
qed

lemma strip_idem [simp]: "strip (strip s) = strip s"
  by (cases "strip s = []") (simp_all add: strip_fixed strip_hd strip_last)

lemma plain_ends: "plain x \<Longrightarrow> x \<noteq> [] \<Longrightarrow> \<not> isspace (hd x) \<and> \<not> isspace (last x)"
  by (metis plain_def strip_hd strip_last)

subsection \<open>newline translation\<close>

lemma universal_newlines_append:
  "universal_newlines p (a @ b) = universal_newlines p a @ universal_newlines (pending p a) b"
  by (induction a arbitrary: p) (auto simp: pending_def)

lemma universal_newlines_no_CR: "CR \<notin> set s \<Longrightarrow> universal_newlines False s = s"
  by (induction s) auto

lemma universal_newlines_CR_free: "CR \<notin> set (universal_newlines p s)"
  by (induction s arbitrary: p) auto

lemma universal_newlines_space:
  "\<forall>c\<in>set s. isspace c \<Longrightarrow> \<forall>c\<in>set (universal_newlines p s). isspace c"
  by (induction s arbitrary: p) auto

lemma universal_newlines_ends_LF:
  "universal_newlines p (a @ [LF]) = [] \<or> last (universal_newlines p (a @ [LF])) = LF"
proof (cases "pending p a")
  case False
  then show ?thesis by (simp add: universal_newlines_append)
next
  case True
  show ?thesis
  proof (cases "a = []")
    case True
    then show ?thesis by simp
  next
    case False
    then obtain a' where a: "a = a' @ [CR]"
      using \<open>pending p a\<close> by (metis pending_def append_butlast_last_id)
    show ?thesis by (simp add: a universal_newlines_append pending_def)
  qed
qed

subsection \<open>lines\<close>

lemma file_lines_append_LF:
  "file_lines cur (a @ LF # b) = file_lines cur (a @ [LF]) @ file_lines [] b"
  by (induction a arbitrary: cur) auto

lemma file_lines_one: "LF \<notin> set x \<Longrightarrow> file_lines cur (x @ [LF]) = [cur @ x @ [LF]]"
  by (induction x arbitrary: cur) auto

lemma file_lines_after_terminated:
  assumes "t = [] \<or> last t = LF"
  shows "file_lines [] (t @ b) = file_lines [] t @ file_lines [] b"
proof (cases "t = []")
  case True
  then show ?thesis by simp
next
  case False
  then obtain a where "t = a @ [LF]" using assms by (metis append_butlast_last_id)
  then show ?thesis using file_lines_append_LF[of "[]" a b] file_lines_append_LF[of "[]" a "[]"] by simp
qed

lemma file_lines_LF_last:
  "LF \<notin> set cur \<Longrightarrow> l \<in> set (file_lines cur t) \<Longrightarrow> l \<noteq> [] \<and> LF \<notin> set (butlast l)"
proof (induction t arbitrary: cur)
  case Nil
  then show ?case by (auto split: if_splits dest: in_set_butlastD)
next
  case (Cons c t)
  show ?case
  proof (cases "c = LF")
    case True
    then have "l = cur @ [LF] \<or> l \<in> set (file_lines [] t)" using Cons.prems(2) by auto
    then show ?thesis
    proof
      assume "l = cur @ [LF]"
      then show ?thesis using Cons.prems(1) by simp
    next
      assume "l \<in> set (file_lines [] t)"
      then show ?thesis using Cons.IH[of "[]"] by simp
    qed
  next
    case False
    then have "l \<in> set (file_lines (cur @ [c]) t)" using Cons.prems(2) by simp
    then show ?thesis using Cons.IH[of "cur @ [c]"] Cons.prems(1) False by auto
  qed
qed

lemma strip_no_LF:
  assumes "LF \<notin> set (butlast l)"
  shows "LF \<notin> set (strip l)"
proof (cases "l = []")
  case True
  then show ?thesis by simp
next
  case False
  then have l: "l = butlast l @ [last l]" by simp
  show ?thesis
  proof (cases "isspace (last l)")
    case True
    then have "strip l = strip (butlast l)" using strip_append_space[of "[last l]" "butlast l"] l by simp
    then show ?thesis using assms set_strip[of "butlast l"] by auto
  next
    case False
    then have "last l \<noteq> LF" by auto
    then have "LF \<notin> set l" using assms l by (metis Un_iff empty_iff empty_set set_ConsD set_append)
    then show ?thesis using set_strip[of l] by auto
  qed
qed

lemma file_lines_subset: "l \<in> set (file_lines cur t) \<Longrightarrow> set l \<subseteq> set cur \<union> set t"
proof (induction t arbitrary: cur)
  case Nil
  then show ?case by (auto split: if_splits)
next
  case (Cons c t)
  show ?case
  proof (cases "c = LF")
    case True
    then have "l = cur @ [LF] \<or> l \<in> set (file_lines [] t)" using Cons.prems by auto
    then show ?thesis using Cons.IH[of "[]"] True by auto
  next
    case False
    then have "l \<in> set (file_lines (cur @ [c]) t)" using Cons.prems by simp
    then show ?thesis using Cons.IH[of "cur @ [c]"] by auto
  qed
qed

subsection \<open>the list a text denotes\<close>

lemma stripped_lines_append [simp]:
  "stripped_lines (a @ b) = stripped_lines a @ stripped_lines b"
  by (simp add: stripped_lines_def)

lemma stripped_lines_Nil [simp]: "stripped_lines [] = []"
  by (simp add: stripped_lines_def)

lemma stripped_lines_Cons:
  "stripped_lines (l # ls) = (if strip l = [] then [] else [strip l]) @ stripped_lines ls"
  by (simp add: stripped_lines_def)

lemma stripped_lines_single:
  "stripped_lines [l] = (if strip l = [] then [] else [strip l])"
  by (simp add: stripped_lines_def)

lemma users_of_text_Nil [simp]: "users_of_text [] = []"
  by (simp add: users_of_text_def)

lemma users_of_text_plain:
  assumes "u \<in> set (users_of_text c)"
  shows "u \<noteq> [] \<and> plain u"
proof -
  let ?t = "universal_newlines False c"
  obtain l where l: "l \<in> set (file_lines [] ?t)" "u = strip l" "strip l \<noteq> []"
    using assms by (auto simp: users_of_text_def stripped_lines_def)
  have "LF \<notin> set (butlast l)" using file_lines_LF_last[of "[]" l ?t] l(1) by simp
  then have 1: "LF \<notin> set u" using strip_no_LF l(2) by simp
  have "set l \<subseteq> set ?t" using file_lines_subset[OF l(1)] by simp
  then have "CR \<notin> set l" using universal_newlines_CR_free[of False c] by auto
  then have 2: "CR \<notin> set u" using set_strip[of l] l(2) by auto
  show ?thesis using 1 2 l by (simp add: plain_def)
qed

lemma pending_file_ok: "file_ok c \<Longrightarrow> pending False c = False"
  by (auto simp: file_ok_def pending_def)

lemma universal_newlines_file_ok:
  assumes "file_ok c"
  shows "universal_newlines False c = [] \<or> last (universal_newlines False c) = LF"
proof (cases "c = []")
  case True
  then show ?thesis by simp
next
  case False
  then have "c = butlast c @ [LF]" using assms by (metis file_ok_def append_butlast_last_id)
  then show ?thesis using universal_newlines_ends_LF[of False "butlast c"] by simp
qed

lemma users_of_text_append_line:
  assumes "file_ok c" and "LF \<notin> set x" and "CR \<notin> set x"
  shows "users_of_text (c @ x @ [LF]) = users_of_text c @ stripped_lines [x @ [LF]]"
proof -
  let ?t = "universal_newlines False c"
  have "CR \<notin> set (x @ [LF])" using assms(3) by simp
  then have x: "universal_newlines False (x @ [LF]) = x @ [LF]"
    by (rule universal_newlines_no_CR)
  have "universal_newlines False (c @ x @ [LF]) = ?t @ x @ [LF]"
    using x by (simp add: universal_newlines_append[of False c] pending_file_ok[OF assms(1)])
  moreover have "file_lines [] (?t @ x @ [LF]) = file_lines [] ?t @ [x @ [LF]]"
    using file_lines_after_terminated[OF universal_newlines_file_ok[OF assms(1)], of "x @ [LF]"]
      file_lines_one[OF assms(2), of "[]"] by simp
  ultimately show ?thesis by (simp add: users_of_text_def)
qed

lemma strip_line_plain: "plain x \<Longrightarrow> strip (x @ [LF]) = x"
  using strip_append_space[of "[LF]" x] by (simp add: plain_def)

lemma users_of_text_append_plain:
  assumes "file_ok c" and "plain x"
  shows "users_of_text (c @ x @ [LF]) = users_of_text c @ (if x = [] then [] else [x])"
  using users_of_text_append_line[OF assms(1), of x] assms(2) strip_line_plain[OF assms(2)]
  by (simp add: stripped_lines_single plain_def)

lemma file_ok_append_line [simp]: "file_ok (c @ x @ [LF])"
  by (simp add: file_ok_def)

lemma file_ok_Nil [simp]: "file_ok []"
  by (simp add: file_ok_def)

lemma file_ok_render [simp]: "file_ok (render us)"
  by (induction us rule: rev_induct) (simp_all add: render_def file_ok_def)

lemma users_of_text_render:
  "\<forall>u\<in>set us. u \<noteq> [] \<and> plain u \<Longrightarrow> users_of_text (render us) = us"
proof (induction us rule: rev_induct)
  case Nil
  then show ?case by (simp add: render_def)
next
  case (snoc u us)
  have r: "render (us @ [u]) = render us @ u @ [LF]" by (simp add: render_def)
  have "users_of_text (render us @ u @ [LF]) = users_of_text (render us) @ [u]"
    using users_of_text_append_plain[of "render us" u] snoc.prems by simp
  then show ?case using snoc r by simp
qed

lemma stripped_lines_space_tail:
  "\<forall>c\<in>set v. isspace c \<Longrightarrow>
     stripped_lines (file_lines cur v) = (if strip cur = [] then [] else [strip cur])"
proof (induction v arbitrary: cur)
  case Nil
  then show ?case by (simp add: stripped_lines_single)
next
  case (Cons s v)
  have v: "\<forall>c\<in>set v. isspace c" using Cons.prems by simp
  have s: "strip (cur @ [s]) = strip cur" using strip_append_space[of "[s]" cur] Cons.prems by simp
  show ?case
  proof (cases "s = LF")
    case True
    then show ?thesis using Cons.IH[OF v, of "[]"] s by (simp add: stripped_lines_Cons)
  next
    case False
    then show ?thesis using Cons.IH[OF v, of "cur @ [s]"] s by simp
  qed
qed

lemma stripped_lines_space_append:
  "\<forall>c\<in>set v. isspace c \<Longrightarrow>
     stripped_lines (file_lines cur (t @ v)) = stripped_lines (file_lines cur t)"
proof (induction t arbitrary: cur)
  case Nil
  then show ?case using stripped_lines_space_tail[of v cur] by (simp add: stripped_lines_single)
next
  case (Cons c t)
  show ?case
  proof (cases "c = LF")
    case True
    then show ?thesis using Cons.IH[OF Cons.prems, of "[]"] by (simp add: stripped_lines_Cons)
  next
    case False
    then show ?thesis using Cons.IH[OF Cons.prems, of "cur @ [c]"] by simp
  qed
qed

lemma users_of_text_append_space:
  assumes "\<forall>c\<in>set ws. isspace c"
  shows "users_of_text (c @ ws) = users_of_text c"
  unfolding users_of_text_def universal_newlines_append
  using stripped_lines_space_append[OF universal_newlines_space[OF assms]] by simp

section \<open>Facts about the store operations\<close>

lemma ensure_value:
  "ensure_users_file_exists flt w =
     (if exists_fails flt then (Inl OSError, w)
      else if users_file w \<noteq> None then (Inr (), w)
      else if touch_fails flt then (Inr (), logger ERROR ''Error creating users.txt'' w)
      else (Inr (), logger INFO ''Created users.txt'' (w\<lparr>users_file := Some []\<rparr>)))"
  by (simp add: ensure_users_file_exists_def path_exists_def path_touch_def)

lemma ensure_cases:
  obtains (raises) "exists_fails flt" "ensure_users_file_exists flt w = (Inl OSError, w)"
  | (returns) w1 where "\<not> exists_fails flt" "ensure_users_file_exists flt w = (Inr (), w1)"
      "users_file w1 = after_ensure flt w" "pushes w1 = pushes w" "replies w1 = replies w"
proof (cases "exists_fails flt")
  case True
  then show ?thesis using raises by (simp add: ensure_value)
next
  case False
  let ?w1 = "snd (ensure_users_file_exists flt w)"
  have "ensure_users_file_exists flt w = (Inr (), ?w1)"
    using False by (simp add: ensure_value)
  moreover have "users_file ?w1 = after_ensure flt w" "pushes ?w1 = pushes w"
    "replies ?w1 = replies w"
    using False by (auto simp: ensure_value logger_def after_ensure_def)
  ultimately show ?thesis using returns False by blast
qed

lemma open_read_value:
  "open_read flt w =
     (if users_file w = None \<or> read_fails flt then Inl OSError
      else Inr (file_lines [] (universal_newlines False (content w))))"
  by (auto simp: open_read_def content_def split: option.splits)

lemma read_user_ids_cases:
  obtains (raises) "exists_fails flt" "read_user_ids flt w = (Inl OSError, w)"
  | (returns) w1 where "\<not> exists_fails flt" "read_user_ids flt w = (Inr (listed flt w), w1)"
      "users_file w1 = after_ensure flt w" "pushes w1 = pushes w" "replies w1 = replies w"
proof (cases flt w rule: ensure_cases)
  case raises
  then show ?thesis using that(1) by (simp add: read_user_ids_def)
next
  case (returns w1)
  have c: "content w1 = content w"
    using returns(3) by (simp add: content_def after_ensure_def split: option.splits)
  have s: "store w = users_of_text (content w)"
    by (simp add: store_def content_def split: option.splits)
  show ?thesis
  proof (cases "users_file w1 = None \<or> read_fails flt")
    case True
    have "users_file w1 = None \<Longrightarrow> store w = []"
      using returns(3) by (auto simp: after_ensure_def store_def split: option.splits if_splits)
    then have l: "listed flt w = []" using True by (auto simp: listed_def)
    let ?w2 = "logger ERROR ''Error reading users'' w1"
    have "read_user_ids flt w = (Inr (listed flt w), ?w2)"
      using True returns(2) l by (simp add: read_user_ids_def open_read_value)
    moreover have "users_file ?w2 = after_ensure flt w" "pushes ?w2 = pushes w"
      "replies ?w2 = replies w"
      using returns by (simp_all add: logger_def)
    ultimately show ?thesis using that(2) returns(1) by blast
  next
    case False
    then have l: "listed flt w = users_of_text (content w)" using s by (simp add: listed_def)
    have "read_user_ids flt w = (Inr (listed flt w), w1)"
      using False returns(2) l c
      by (auto simp: read_user_ids_def open_read_value users_of_text_def)
    then show ?thesis using that(2) returns by blast
  qed
qed

lemma read_user_ids_value:
  "fst (read_user_ids flt w) = (if exists_fails flt then Inl OSError else Inr (listed flt w))"
  by (cases flt w rule: read_user_ids_cases) simp_all

lemma read_user_ids_file:
  "users_file (snd (read_user_ids flt w)) =
     (if exists_fails flt then users_file w else after_ensure flt w)"
  by (cases flt w rule: read_user_ids_cases) simp_all

lemma content_after_ensure:
  "(case after_ensure flt w of None \<Rightarrow> [] | Some c \<Rightarrow> c) = content w"
  by (simp add: after_ensure_def content_def split: option.splits)

lemma save_user_id_value:
  "fst (save_user_id flt x w) =
     Inr (\<not> exists_fails flt \<and> x \<notin> set (listed flt w) \<and> \<not> write_fails flt)"
  by (cases flt w rule: read_user_ids_cases)
     (simp_all add: save_user_id_def open_append_def logger_def)

lemma save_user_id_file:
  "users_file (snd (save_user_id flt x w)) =
     (if exists_fails flt then users_file w
      else if x \<notin> set (listed flt w) \<and> \<not> write_fails flt then Some (content w @ x @ [LF])
      else after_ensure flt w)"
  by (cases flt w rule: read_user_ids_cases)
     (simp_all add: save_user_id_def open_append_def logger_def content_after_ensure)

lemma save_user_id_replies: "replies (snd (save_user_id flt x w)) = replies w"
  by (cases flt w rule: read_user_ids_cases)
     (simp_all add: save_user_id_def open_append_def logger_def)

lemma remove_user_id_value:
  "fst (remove_user_id flt x w) =
     Inr (\<not> exists_fails flt \<and> x \<in> set (listed flt w) \<and> \<not> write_fails flt)"
  by (cases flt w rule: read_user_ids_cases)
     (simp_all add: remove_user_id_def open_write_def logger_def)

lemma remove_user_id_file_absent:
  "x \<notin> set (listed flt w) \<Longrightarrow>
     users_file (snd (remove_user_id flt x w)) =
       (if exists_fails flt then users_file w else after_ensure flt w)"
  by (cases flt w rule: read_user_ids_cases)
     (simp_all add: remove_user_id_def logger_def)

lemma store_after_ensure:
  "users_file w' = after_ensure flt w \<Longrightarrow> store w' = store w"
  by (simp add: store_def after_ensure_def split: option.splits)


lemma content_after_ensure':
  "users_file w' = after_ensure flt w \<Longrightarrow> content w' = content w"
  by (simp add: content_def after_ensure_def split: option.splits)

lemma store_plain: "u \<in> set (store w) \<Longrightarrow> u \<noteq> [] \<and> plain u"
  using users_of_text_plain by (auto simp: store_def split: option.splits)

lemma listed_plain: "u \<in> set (listed flt w) \<Longrightarrow> u \<noteq> [] \<and> plain u"
  using store_plain by (auto simp: listed_def split: if_splits)


lemma store_content: "store w = users_of_text (content w)"
  by (simp add: store_def content_def split: option.splits)

lemma get_user_count_value:
  "fst (get_user_count flt w) =
     (if exists_fails flt then Inl OSError
      else Inr [(''total_users'', JInt (int (length (listed flt w))))])"
  by (cases flt w rule: read_user_ids_cases) (simp_all add: get_user_count_def)






lemma space_not_listed:
  assumes "list_all isspace x"
  shows "x \<notin> set (listed flt w)"
proof
  assume "x \<in> set (listed flt w)"
  then have "x \<noteq> []" "plain x" using listed_plain by blast+
  then have "\<not> isspace (hd x)" using plain_ends by blast
  moreover have "isspace (hd x)" using assms \<open>x \<noteq> []\<close> by (cases x) simp_all
  ultimately show False by simp
qed

lemma save_space:
  assumes "list_all isspace x" and "\<not> exists_fails flt" and "\<not> write_fails flt"
  shows "fst (save_user_id flt x w) = Inr True"
    and "users_file (snd (save_user_id flt x w)) = Some (content w @ x @ [LF])"
    and "store (snd (save_user_id flt x w)) = store w"
proof -
  show "fst (save_user_id flt x w) = Inr True"
    using space_not_listed[OF assms(1)] assms(2,3) by (simp add: save_user_id_value)
  show f: "users_file (snd (save_user_id flt x w)) = Some (content w @ x @ [LF])"
    using space_not_listed[OF assms(1)] assms(2,3) by (simp add: save_user_id_file)
  have "\<forall>c\<in>set (x @ [LF]). isspace c" using assms(1) by (auto simp: list_all_iff)
  then have "users_of_text (content w @ x @ [LF]) = users_of_text (content w)"
    by (rule users_of_text_append_space)
  then show "store (snd (save_user_id flt x w)) = store w"
    using f store_content[of w] by (simp add: store_def)
qed

lemma run_space:
  "list_all isspace x \<Longrightarrow> list_all (add_written x) ops \<Longrightarrow>
     list_all (\<lambda>r. r = Inr True) (run_results ops w)
     \<and> users_file (run_ops ops w) =
         (if ops = [] then users_file w
          else Some (content w @ concat (replicate (length ops) (x @ [LF]))))
     \<and> store (run_ops ops w) = store w"
proof (induction ops arbitrary: w)
  case Nil
  then show ?case by simp
next
  case (Cons c ops)
  obtain flt where c: "c = (flt, Add x)" "\<not> exists_fails flt" "\<not> write_fails flt"
    using Cons.prems(2) by (cases c) (auto simp: add_written_def)
  let ?w1 = "snd (save_user_id flt x w)"
  have s: "fst (save_user_id flt x w) = Inr True"
    "users_file ?w1 = Some (content w @ x @ [LF])" "store ?w1 = store w"
    using save_space[OF Cons.prems(1) c(2,3), of w] by simp_all
  have "content ?w1 = content w @ x @ [LF]" using s(2) by (simp add: content_def)
  then show ?case using Cons.IH[of ?w1] Cons.prems c(1) s by simp
qed

lemma delivered_simps [simp]: "delivered (u, t, b) = b"
  by (simp add: delivered_def)

lemma broadcast_loop_trace:
  "\<exists>new w'. broadcast_loop tr text ids sc fu w
               = (Inr (sc + int (length (filter delivered new)),
                       fu @ map fst (filter (\<lambda>c. \<not> delivered c) new)), w')
     \<and> pushes w' = pushes w @ new \<and> map fst new = ids
     \<and> list_all (\<lambda>c. fst (snd c) = text) new
     \<and> users_file w' = users_file w"
proof (induction ids arbitrary: sc fu w)
  case Nil
  show ?case by (rule exI[of _ "[]"]) simp
next
  case (Cons u ids)
  show ?case
  proof (cases "tr (pushes w) u text")
    case True
    let ?w1 = "w\<lparr>pushes := pushes w @ [(u, text, True)]\<rparr>"
    obtain new w' where n: "broadcast_loop tr text ids (sc + 1) fu ?w1
               = (Inr (sc + 1 + int (length (filter delivered new)),
                       fu @ map fst (filter (\<lambda>c. \<not> delivered c) new)), w')"
      "pushes w' = pushes ?w1 @ new" "map fst new = ids"
      "list_all (\<lambda>c. fst (snd c) = text) new" "users_file w' = users_file ?w1"
      using Cons.IH[of "sc + 1" fu ?w1] by blast
    show ?thesis
      by (rule exI[of _ "(u, text, True) # new"], rule exI[of _ w'])
         (use True n in \<open>simp add: send_push_message_def\<close>)
  next
    case False
    let ?w1 = "logger ERROR ''Error sending push message''
                 (w\<lparr>pushes := pushes w @ [(u, text, False)]\<rparr>)"
    obtain new w' where n: "broadcast_loop tr text ids sc (fu @ [u]) ?w1
               = (Inr (sc + int (length (filter delivered new)),
                       (fu @ [u]) @ map fst (filter (\<lambda>c. \<not> delivered c) new)), w')"
      "pushes w' = pushes ?w1 @ new" "map fst new = ids"
      "list_all (\<lambda>c. fst (snd c) = text) new" "users_file w' = users_file ?w1"
      using Cons.IH[of sc "fu @ [u]" ?w1] by blast
    show ?thesis
      by (rule exI[of _ "(u, text, False) # new"], rule exI[of _ w'])
         (use False n in \<open>simp add: send_push_message_def logger_def\<close>)
  qed
qed

lemmas eval_store = read_user_ids_value read_user_ids_file save_user_id_value save_user_id_file
  get_user_count_value listed_def no_faults_def fresh_def store_def content_def after_ensure_def
  users_of_text_def stripped_lines_def strip_def isspace_def LF_def CR_def

section \<open>The claims\<close>

text \<open>
  C1. The claim asks that the list never holds a duplicate, and the docstring of
  \<open>save_user_id\<close> promises the same. The code breaks both: it compares the argument as
  given with the stripped lines of the file, so on the empty store the identifier
  \<open>" U1"\<close> is appended by both of two calls and \<open>read_user_ids\<close> then lists \<open>"U1"\<close>
  twice.
\<close>

theorem padded_id_listed_twice:
  "fst (read_user_ids no_faults fresh) = Inr []
   \<and> fst (read_user_ids no_faults
            (run_ops [(no_faults, Add [32, 85, 49]), (no_faults, Add [32, 85, 49])] fresh))
       = Inr [[85, 49], [85, 49]]"
  by (simp add: eval_store)

text \<open>
  C2. The claim asks that \<open>broadcast_message\<close> with empty text makes no push and reports
  a validation failure (status 400). The code makes no push, but the
  \<open>HTTPException(status_code=400)\<close> raised inside the \<open>try\<close> is caught by its own
  \<open>except Exception\<close>, logged, and replaced by \<open>HTTPException(status_code=500)\<close>: the
  caller sees a server error, for the text \<open>""\<close> and for a request without the key.
\<close>

theorem broadcast_empty_text_is_500:
  "broadcast_message flt tr (Map.empty(''text'' := Some [])) w
     = (Inl (HTTPException 500), logger ERROR ''Error in broadcast'' w)
   \<and> broadcast_message flt tr Map.empty w
     = (Inl (HTTPException 500), logger ERROR ''Error in broadcast'' w)
   \<and> pushes (snd (broadcast_message flt tr (Map.empty(''text'' := Some [])) w)) = pushes w"
  by (simp add: broadcast_message_def broadcast_try_def logger_def)

text \<open>
  C3 (as amended). For a non-empty text and the list \<open>ids\<close> that \<open>read_user_ids\<close>
  returns: when \<open>ids\<close> is empty, the result holds only the message
  \<open>No users to send message to\<close> and \<open>total_users\<close> 0, and no push is made; when it
  is not, the pushes made are exactly one per identifier of \<open>ids\<close>, in order, each with
  the text, \<open>total_users\<close> is the length of \<open>ids\<close>, \<open>success_count\<close> the number of
  pushes delivered, and \<open>failed_users\<close> the recipients of the failed pushes in the order
  met.
\<close>

theorem broadcast_accounts_for_every_id:
  assumes "request ''text'' = Some msg" and "msg \<noteq> []"
    and "fst (read_user_ids flt w) = Inr ids"
  shows "(ids = [] \<longrightarrow>
            fst (broadcast_message flt tr request w)
              = Inr [(''message'', JStr ''No users to send message to''), (''total_users'', JInt 0)]
            \<and> pushes (snd (broadcast_message flt tr request w)) = pushes w)
       \<and> (ids \<noteq> [] \<longrightarrow>
            (\<exists>new. pushes (snd (broadcast_message flt tr request w)) = pushes w @ new
               \<and> map fst new = ids
               \<and> list_all (\<lambda>c. fst (snd c) = msg) new
               \<and> fst (broadcast_message flt tr request w)
                   = Inr [(''message'', JStr ''Broadcast completed''),
                          (''total_users'', JInt (int (length ids))),
                          (''success_count'', JInt (int (length (filter delivered new)))),
                          (''failed_count'',
                             JInt (int (length (filter (\<lambda>c. \<not> delivered c) new)))),
                          (''failed_users'',
                             JList (map fst (filter (\<lambda>c. \<not> delivered c) new)))]))"
proof -
  obtain w1 where r: "read_user_ids flt w = (Inr (listed flt w), w1)" "pushes w1 = pushes w"
    using assms(3) by (cases flt w rule: read_user_ids_cases) auto
  have ids: "listed flt w = ids" using assms(3) r(1) by simp
  obtain new w' where n: "broadcast_loop tr msg ids 0 [] w1
               = (Inr (0 + int (length (filter delivered new)),
                       [] @ map fst (filter (\<lambda>c. \<not> delivered c) new)), w')"
      "pushes w' = pushes w1 @ new" "map fst new = ids"
      "list_all (\<lambda>c. fst (snd c) = msg) new"
    using broadcast_loop_trace[of tr msg ids 0 "[]" w1] by blast
  have e: "ids = [] \<Longrightarrow> ?thesis"
    using assms(1,2) r ids by (simp add: broadcast_message_def broadcast_try_def)
  have ne: "ids \<noteq> [] \<Longrightarrow> ?thesis"
  proof -
    assume i: "ids \<noteq> []"
    have "\<exists>new. pushes (snd (broadcast_message flt tr request w)) = pushes w @ new
               \<and> map fst new = ids
               \<and> list_all (\<lambda>c. fst (snd c) = msg) new
               \<and> fst (broadcast_message flt tr request w)
                   = Inr [(''message'', JStr ''Broadcast completed''),
                          (''total_users'', JInt (int (length ids))),
                          (''success_count'', JInt (int (length (filter delivered new)))),
                          (''failed_count'',
                             JInt (int (length (filter (\<lambda>c. \<not> delivered c) new)))),
                          (''failed_users'',
                             JList (map fst (filter (\<lambda>c. \<not> delivered c) new)))]"
      by (rule exI[of _ new])
         (use assms(1,2) i r ids n in \<open>simp add: broadcast_message_def broadcast_try_def\<close>)
    then show ?thesis using i by simp
  qed
  show ?thesis using e ne by blast
qed

text \<open>
  Three identifiers with the push to the second one failing: total 3, success 2, failed
  \<open>["U2"]\<close>.
\<close>

theorem broadcast_accounts_for_every_id_witness:
  "[''text'' \<mapsto> [104, 105]] ''text'' = Some [104, 105] \<and> [104, 105] \<noteq> ([] :: pystr)
   \<and> fst (read_user_ids no_faults (fresh\<lparr>users_file := Some [85, 49, 10, 85, 50, 10, 85, 51, 10]\<rparr>))
       = Inr [[85, 49], [85, 50], [85, 51]]
   \<and> pushes (snd (broadcast_message no_faults (fails_for [85, 50]) [''text'' \<mapsto> [104, 105]]
         (fresh\<lparr>users_file := Some [85, 49, 10, 85, 50, 10, 85, 51, 10]\<rparr>)))
       = [([85, 49], [104, 105], True), ([85, 50], [104, 105], False), ([85, 51], [104, 105], True)]
   \<and> fst (broadcast_message no_faults (fails_for [85, 50]) [''text'' \<mapsto> [104, 105]]
         (fresh\<lparr>users_file := Some [85, 49, 10, 85, 50, 10, 85, 51, 10]\<rparr>))
       = Inr [(''message'', JStr ''Broadcast completed''), (''total_users'', JInt 3),
              (''success_count'', JInt 2), (''failed_count'', JInt 1),
              (''failed_users'', JList [[85, 50]])]"
proof -
  let ?w = "fresh\<lparr>users_file := Some [85, 49, 10, 85, 50, 10, 85, 51, 10]\<rparr>"
  have a: "[''text'' \<mapsto> [104, 105]] ''text'' = Some [104, 105]" by simp
  have b: "[104, 105] \<noteq> ([] :: pystr)" by simp
  have r: "read_user_ids no_faults ?w = (Inr [[85, 49], [85, 50], [85, 51]], ?w)"
    by (simp add: read_user_ids_def ensure_value open_read_def no_faults_def fresh_def
        stripped_lines_def strip_def isspace_def LF_def CR_def)
  have c: "fst (read_user_ids no_faults ?w) = Inr [[85, 49], [85, 50], [85, 51]]"
    by (simp add: r)
  have p: "pushes ?w = []" by (simp add: fresh_def)
  show ?thesis
    using broadcast_accounts_for_every_id
      [where request = "[''text'' \<mapsto> [104, 105]]" and msg = "[104, 105]"
         and flt = no_faults and w = "?w" and tr = "fails_for [85, 50]", OF a b c]
    by (simp add: broadcast_message_def broadcast_try_def Let_def r send_push_message_def
        fails_for_def logger_def p c)
qed

text \<open>
  C3 as stated fails for the empty snapshot: the result has no \<open>success_count\<close> and no
  \<open>failed_users\<close>.
\<close>

theorem broadcast_no_users_counterexample:
  "fst (read_user_ids no_faults fresh) = Inr []
   \<and> fst (broadcast_message no_faults always_delivers (Map.empty(''text'' := Some [104, 105])) fresh)
       = Inr [(''message'', JStr ''No users to send message to''), (''total_users'', JInt 0)]
   \<and> map_of [(''message'', JStr ''No users to send message to''), (''total_users'', JInt 0)]
        ''success_count'' = None
   \<and> map_of [(''message'', JStr ''No users to send message to''), (''total_users'', JInt 0)]
        ''failed_users'' = None"
proof -
  have r: "read_user_ids no_faults fresh
             = (Inr [], logger INFO ''Created users.txt'' (fresh\<lparr>users_file := Some []\<rparr>))"
    by (simp add: read_user_ids_def ensure_value open_read_def no_faults_def fresh_def
        stripped_lines_def logger_def)
  show ?thesis by (simp add: broadcast_message_def broadcast_try_def Let_def r)
qed

text \<open>
  C4. The claim asks that two calls of \<open>save_user_id\<close> with the same new identifier
  return \<open>True\<close> and then \<open>False\<close>, and that the count goes up by one. With \<open>" U1"\<close> on
  the empty store both calls return \<open>True\<close> and \<open>get_user_count\<close> goes from 0 to 2: the
  second call does not find the identifier it has just stored.
\<close>

theorem padded_id_saved_twice:
  "fst (read_user_ids no_faults fresh) = Inr []
   \<and> fst (save_user_id no_faults [32, 85, 49] fresh) = Inr True
   \<and> fst (save_user_id no_faults [32, 85, 49] (snd (save_user_id no_faults [32, 85, 49] fresh)))
       = Inr True
   \<and> fst (get_user_count no_faults fresh) = Inr [(''total_users'', JInt 0)]
   \<and> fst (get_user_count no_faults
            (snd (save_user_id no_faults [32, 85, 49]
                   (snd (save_user_id no_faults [32, 85, 49] fresh)))))
       = Inr [(''total_users'', JInt 2)]"
  by (simp add: eval_store)

text \<open>
  C5. The claim asks that adds of \<open>N\<close> distinct identifiers, run one after the other in
  any order, leave exactly those \<open>N\<close> identifiers in the store. For the two distinct
  identifiers \<open>"U1"\<close> and \<open>" U1"\<close> on the empty store, the order \<open>"U1"\<close>, \<open>" U1"\<close> gives
  two successful adds and the list \<open>"U1"\<close>, \<open>"U1"\<close>; the other order gives a refused second
  add and the list \<open>"U1"\<close> alone.
\<close>

theorem serialized_adds_of_padded_id:
  "[85, 49] \<noteq> [32, 85, 49 :: nat]
   \<and> run_results [(no_faults, Add [85, 49]), (no_faults, Add [32, 85, 49])] fresh
       = [Inr True, Inr True]
   \<and> fst (read_user_ids no_faults
            (run_ops [(no_faults, Add [85, 49]), (no_faults, Add [32, 85, 49])] fresh))
       = Inr [[85, 49], [85, 49]]
   \<and> run_results [(no_faults, Add [32, 85, 49]), (no_faults, Add [85, 49])] fresh
       = [Inr True, Inr False]
   \<and> fst (read_user_ids no_faults
            (run_ops [(no_faults, Add [32, 85, 49]), (no_faults, Add [85, 49])] fresh))
       = Inr [[85, 49]]"
  by (simp add: eval_store)

text \<open>
  C6. When the stripped and lowercased text is in neither phrase list and does not contain
  \<open>user id\<close>, no branch of \<open>handle_message\<close> assigns \<open>reply_text\<close>: the name is unbound
  where \<open>send_reply_message\<close> is called, the handler raises \<open>UnboundLocalError\<close>, and no
  reply is sent. This holds for every function taken for \<open>str.lower\<close>.
\<close>

theorem unmatched_text_leaves_reply_unbound:
  assumes "lower (strip (message_text ev)) \<notin> set greetings"
    and "lower (strip (message_text ev)) \<notin> set thanks"
    and "\<not> is_substring user_id_phrase (lower (strip (message_text ev)))"
  shows "reply_text_binding lower (source_user_id ev) (strip (message_text ev)) = None
       \<and> fst (handle_message lower flt tr ev w) = Inl UnboundLocalError
       \<and> replies (snd (handle_message lower flt tr ev w)) = replies w"
proof -
  have n: "reply_text_binding lower (source_user_id ev) (strip (message_text ev)) = None"
    using assms by (simp add: reply_text_binding_def)
  obtain b w1 where s: "save_user_id flt (source_user_id ev) (logger INFO ''Message from'' w)
                          = (Inr b, w1)"
    using save_user_id_value[of flt "source_user_id ev" "logger INFO ''Message from'' w"]
    by (cases "save_user_id flt (source_user_id ev) (logger INFO ''Message from'' w)") auto
  have "replies w1 = replies w"
    using save_user_id_replies[of flt "source_user_id ev" "logger INFO ''Message from'' w"] s
    by (simp add: logger_def)
  then show ?thesis using n s by (simp add: handle_message_def Let_def)
qed

text \<open>The message \<open>" Why? "\<close> from \<open>"U1"\<close>.\<close>

theorem unmatched_text_leaves_reply_unbound_witness:
  "ascii_lower (strip (message_text
       \<lparr>source_user_id = [85, 49], reply_token = [82], message_text = [32, 87, 104, 121, 63, 32]\<rparr>))
     \<notin> set greetings
   \<and> ascii_lower (strip (message_text
       \<lparr>source_user_id = [85, 49], reply_token = [82], message_text = [32, 87, 104, 121, 63, 32]\<rparr>))
     \<notin> set thanks
   \<and> \<not> is_substring user_id_phrase (ascii_lower (strip (message_text
       \<lparr>source_user_id = [85, 49], reply_token = [82], message_text = [32, 87, 104, 121, 63, 32]\<rparr>)))
   \<and> fst (handle_message ascii_lower no_faults always_delivers
       \<lparr>source_user_id = [85, 49], reply_token = [82], message_text = [32, 87, 104, 121, 63, 32]\<rparr>
       fresh) = Inl UnboundLocalError
   \<and> replies (snd (handle_message ascii_lower no_faults always_delivers
       \<lparr>source_user_id = [85, 49], reply_token = [82], message_text = [32, 87, 104, 121, 63, 32]\<rparr>
       fresh)) = []"
proof -
  let ?ev = "\<lparr>source_user_id = [85, 49], reply_token = [82],
               message_text = [32, 87, 104, 121, 63, 32]\<rparr>"
  have t: "ascii_lower (strip (message_text ?ev)) = [119, 104, 121, 63]"
    by (simp add: ascii_lower_def strip_def isspace_def)
  have a: "ascii_lower (strip (message_text ?ev)) \<notin> set greetings"
    unfolding t by (simp add: greetings_def)
  have b: "ascii_lower (strip (message_text ?ev)) \<notin> set thanks"
    unfolding t by (simp add: thanks_def)
  have c: "\<not> is_substring user_id_phrase (ascii_lower (strip (message_text ?ev)))"
    unfolding t by (simp add: user_id_phrase_def)
  have f: "replies fresh = []" by (simp add: fresh_def)
  show ?thesis
    using a b c f unmatched_text_leaves_reply_unbound
      [where lower = ascii_lower and ev = "?ev" and flt = no_faults and tr = always_delivers
         and w = fresh, OF a b c]
    by simp
qed

text \<open>
  C7. The claim asks that no store operation raises on a storage error. When
  \<open>Path.exists\<close> raises, \<open>read_user_ids\<close> raises to its caller, and so does the count
  endpoint built on it: \<open>ensure_users_file_exists\<close> calls \<open>exists\<close> outside its \<open>try\<close>,
  and \<open>read_user_ids\<close> calls \<open>ensure_users_file_exists\<close> before its own. The same error
  inside \<open>save_user_id\<close> and \<open>remove_user_id\<close> is caught, and they return \<open>False\<close>.
\<close>

theorem read_user_ids_raises:
  "fst (read_user_ids (no_faults\<lparr>exists_fails := True\<rparr>) w) = Inl OSError
   \<and> fst (get_user_count (no_faults\<lparr>exists_fails := True\<rparr>) w) = Inl OSError
   \<and> fst (save_user_id (no_faults\<lparr>exists_fails := True\<rparr>) x w) = Inr False
   \<and> fst (remove_user_id (no_faults\<lparr>exists_fails := True\<rparr>) x w) = Inr False"
  by (simp add: read_user_ids_value get_user_count_value save_user_id_value
      remove_user_id_value no_faults_def)

text \<open>
  C8 (as amended). When the identifier is not in the store, \<open>remove_user_id\<close> returns
  \<open>False\<close> whatever the storage layer does during the call, and the list read afterwards
  is the list read before. An existing file is left as it is. An absent file is created
  empty, unless the existence check or the creation raises.
\<close>

theorem remove_absent_is_noop:
  assumes "fst (read_user_ids no_faults w) = Inr users" and "x \<notin> set users"
  shows "fst (remove_user_id flt x w) = Inr False
       \<and> users_file (snd (remove_user_id flt x w)) =
           (case users_file w of
              Some c \<Rightarrow> Some c
            | None \<Rightarrow> if exists_fails flt \<or> touch_fails flt then None else Some [])
       \<and> fst (read_user_ids flt' (snd (remove_user_id flt x w))) = fst (read_user_ids flt' w)"
proof -
  have "users = store w"
    using assms(1) by (simp add: read_user_ids_value listed_def no_faults_def)
  then have l: "x \<notin> set (listed flt w)" using assms(2) by (simp add: listed_def)
  have f: "users_file (snd (remove_user_id flt x w)) =
             (if exists_fails flt then users_file w else after_ensure flt w)"
    using l by (rule remove_user_id_file_absent)
  have "store (snd (remove_user_id flt x w)) = store w"
    using f store_after_ensure[of "snd (remove_user_id flt x w)" flt w]
    by (auto simp: store_def split: if_splits)
  then have "listed flt' (snd (remove_user_id flt x w)) = listed flt' w" by (simp add: listed_def)
  then show ?thesis using l f
    by (auto simp: remove_user_id_value read_user_ids_value after_ensure_def split: option.splits)
qed

text \<open>Removing \<open>"U2"\<close> from the store that holds \<open>"U1"\<close>.\<close>

theorem remove_absent_is_noop_witness:
  "fst (read_user_ids no_faults (fresh\<lparr>users_file := Some [85, 49, 10]\<rparr>)) = Inr [[85, 49]]
   \<and> [85, 50] \<notin> set [[85, 49 :: nat]]
   \<and> fst (remove_user_id no_faults [85, 50] (fresh\<lparr>users_file := Some [85, 49, 10]\<rparr>)) = Inr False
   \<and> users_file (snd (remove_user_id no_faults [85, 50] (fresh\<lparr>users_file := Some [85, 49, 10]\<rparr>)))
       = Some [85, 49, 10]
   \<and> fst (read_user_ids no_faults
            (snd (remove_user_id no_faults [85, 50] (fresh\<lparr>users_file := Some [85, 49, 10]\<rparr>))))
       = Inr [[85, 49]]"
proof -
  let ?w = "fresh\<lparr>users_file := Some [85, 49, 10]\<rparr>"
  have a: "fst (read_user_ids no_faults ?w) = Inr [[85, 49]]" by (simp add: eval_store)
  have b: "[85, 50] \<notin> set [[85, 49 :: nat]]" by simp
  have c: "users_file ?w = Some [85, 49, 10]" by simp
  show ?thesis using a b c remove_absent_is_noop [OF a b, of no_faults no_faults] by simp
qed

text \<open>
  C8 as stated fails: removing an identifier from a store whose file does not exist yet
  creates the file.
\<close>

theorem remove_creates_absent_file:
  "users_file fresh = None
   \<and> fst (read_user_ids no_faults fresh) = Inr []
   \<and> fst (remove_user_id no_faults [85, 49] fresh) = Inr False
   \<and> users_file (snd (remove_user_id no_faults [85, 49] fresh)) = Some []"
  by (simp add: eval_store remove_user_id_value remove_user_id_file_absent)



text \<open>
  C10 (as amended). Let \<open>x\<close> consist of whitespace only (the empty string included). In
  every sequence of calls \<open>save_user_id x\<close> during which neither the existence check nor
  the write raises, from any world, every call returns \<open>True\<close> and appends \<open>x\<close> and a
  line feed to the file; the list read afterwards and the count are those read before,
  and \<open>x\<close> is not in the list.
\<close>

theorem whitespace_id_always_saved:
  assumes "list_all isspace x" and "list_all (add_written x) ops"
  shows "list_all (\<lambda>r. r = Inr True) (run_results ops w)
       \<and> users_file (run_ops ops w) =
           (if ops = [] then users_file w
            else Some ((case users_file w of None \<Rightarrow> [] | Some c \<Rightarrow> c)
                       @ concat (replicate (length ops) (x @ [LF]))))
       \<and> fst (read_user_ids flt' (run_ops ops w)) = fst (read_user_ids flt' w)
       \<and> fst (get_user_count flt' (run_ops ops w)) = fst (get_user_count flt' w)
       \<and> (\<forall>us. fst (read_user_ids flt' (run_ops ops w)) = Inr us \<longrightarrow> x \<notin> set us)"
  using run_space[OF assms, of w] space_not_listed[OF assms(1), of flt' "run_ops ops w"]
  by (auto simp: read_user_ids_value get_user_count_value listed_def content_def)

text \<open>The identifier of a space and a tab, added twice to the empty store.\<close>

theorem whitespace_id_always_saved_witness:
  "list_all isspace [32, 9]
   \<and> list_all (add_written [32, 9]) [(no_faults, Add [32, 9]), (no_faults, Add [32, 9])]
   \<and> run_results [(no_faults, Add [32, 9]), (no_faults, Add [32, 9])] fresh = [Inr True, Inr True]
   \<and> users_file (run_ops [(no_faults, Add [32, 9]), (no_faults, Add [32, 9])] fresh)
       = Some [32, 9, 10, 32, 9, 10]
   \<and> fst (read_user_ids no_faults
            (run_ops [(no_faults, Add [32, 9]), (no_faults, Add [32, 9])] fresh)) = Inr []
   \<and> fst (get_user_count no_faults
            (run_ops [(no_faults, Add [32, 9]), (no_faults, Add [32, 9])] fresh))
       = Inr [(''total_users'', JInt 0)]"
proof -
  let ?ops = "[(no_faults, Add [32, 9]), (no_faults, Add [32, 9])]"
  have a: "list_all isspace [32, 9]" by (simp add: isspace_def)
  have b: "list_all (add_written [32, 9]) ?ops" by (simp add: add_written_def no_faults_def)
  have f: "fst (read_user_ids no_faults fresh) = Inr []"
    "fst (get_user_count no_faults fresh) = Inr [(''total_users'', JInt 0)]"
    "users_file fresh = None"
    by (simp_all add: eval_store)
  have g: "concat (replicate (length ?ops) ([32, 9] @ [LF])) = [32, 9, 10, 32, 9, 10]"
    by (simp add: LF_def)
  show ?thesis
    using a b f g whitespace_id_always_saved [OF a b, of fresh no_faults] by simp
qed

text \<open>
  C10 as stated fails: a call whose write raises returns \<open>False\<close>, for a whitespace
  identifier as for any other.
\<close>

theorem whitespace_id_write_fault:
  "list_all isspace [32]
   \<and> fst (save_user_id (no_faults\<lparr>write_fails := True\<rparr>) [32] fresh) = Inr False"
  by (simp add: isspace_def save_user_id_value no_faults_def)

end
